theory Spec2Isabelle
  imports Complex_Main
begin

section \<open>shell-sleeper: timers backed by the shell's sleep command\<close>

text \<open>
  The module \<^verbatim>\<open>src/index.js\<close> keeps two module-level variables, the dictionary
  \<^verbatim>\<open>shellDelays\<close> and the counter \<^verbatim>\<open>nextshellDelayId\<close>, and talks to three
  capabilities of the host: the probe \<^verbatim>\<open>commandExistsSync('sleep')\<close>, child processes
  (\<^verbatim>\<open>exec\<close> and \<^verbatim>\<open>ChildProcess.kill\<close>) and the native timers.  The embedding threads
  one state record through every function.  JavaScript numbers are idealised: slot
  indices, timer ids and the counter are integers; a duration is a rational that is
  handed on as it is, no arithmetic is done on it.
\<close>

subsection \<open>Values and host objects\<close>

text \<open>
  The JavaScript values that can be stored in the dictionary or passed as a handle:
  \<^verbatim>\<open>undefined\<close>, a number, a \<^verbatim>\<open>ChildProcess\<close> object (named by its index in the table
  of spawned processes) and a native \<^verbatim>\<open>Timeout\<close> object (named by its index in the
  table of native timers, and carrying the numeric timer id that Node.js gave it).  Only
  \<open>Num\<close> has \<^verbatim>\<open>typeof\<close> equal to \<^verbatim>\<open>'number'\<close>, and only \<open>Proc\<close> has a \<^verbatim>\<open>kill\<close> method.
\<close>

datatype jsval = Undefined | Num int | Proc nat | Timer nat int

datatype js_error = TypeError

text \<open>The error value that \<^verbatim>\<open>exec\<close> hands to its callback when the command did not exit normally.\<close>

datatype exec_error = CommandFailed

text \<open>A user callback is named by a number; what running it does is a parameter of the model.\<close>

type_synonym callback = nat

text \<open>
  The command of line 44, \<^verbatim>\<open>`sleep ${ms / 1000}s`\<close>, named by the duration \<open>ms\<close> it was
  built from.  The quotient is an IEEE double and its text is what JavaScript's conversion
  of a number to a string gives; neither is computed here.
\<close>

datatype shell_command = Sleep_ms rat

text \<open>
  What the arrow function given to \<^verbatim>\<open>exec\<close> (lines 44 to 55) closes over: the arguments of
  the enclosing \<^verbatim>\<open>setShellDelay\<close> call and its \<^verbatim>\<open>delayId\<close>.
\<close>

record closure =
  c_callback :: callback
  c_ms :: rat
  c_recur :: bool
  c_delayId :: int

datatype proc_status = Running | Killed | Finished

record process =
  p_command :: shell_command
  p_closure :: closure
  p_status :: proc_status

record timer =
  t_callback :: callback
  t_ms :: rat
  t_repeat :: bool
  t_active :: bool

record state =
  shellDelays :: "int \<rightharpoonup> jsval"
  nextshellDelayId :: int
  sleepAvailable :: bool
  procs :: "process list"
  timers :: "timer list"
  nextAsyncId :: int
  calls :: "callback list"

text \<open>
  The state when the module has been loaded: an empty dictionary, the counter at 0, no
  process, no timer.  Whether the sleep utility exists is the host's, and so is
  \<open>nextAsyncId\<close>, the id that Node.js will give to the next timer.
\<close>

definition init :: "bool \<Rightarrow> state" where
  "init avail = \<lparr>shellDelays = Map.empty, nextshellDelayId = 0, sleepAvailable = avail,
     procs = [], timers = [], nextAsyncId = 1, calls = []\<rparr>"

text \<open>
  The result of running code that may throw or may not return: \<open>None\<close> is a call that
  never returns, \<open>Some (Inl e)\<close> one that throws \<open>e\<close>, \<open>Some (Inr x)\<close> one that returns.
\<close>

type_synonym 'a outcome = "(js_error + 'a) option"

subsection \<open>The host's capabilities\<close>

definition isSleepAvailable :: "state \<Rightarrow> bool" where
  "isSleepAvailable s = sleepAvailable s"

text \<open>\<^verbatim>\<open>exec(command, handler)\<close> spawns a process and returns its wrapper.\<close>

definition exec :: "shell_command \<Rightarrow> closure \<Rightarrow> state \<Rightarrow> jsval \<times> state" where
  "exec cmd c s =
     (Proc (length (procs s)),
      s\<lparr>procs := procs s @ [\<lparr>p_command = cmd, p_closure = c, p_status = Running\<rparr>]\<rparr>)"

definition set_status :: "nat \<Rightarrow> proc_status \<Rightarrow> state \<Rightarrow> state" where
  "set_status p st s = s\<lparr>procs := (procs s)[p := (procs s ! p)\<lparr>p_status := st\<rparr>]\<rparr>"

text \<open>
  \<^verbatim>\<open>ChildProcess.kill()\<close> answers whether the signal was delivered.  It is delivered, and
  the answer is true, as long as the completion of the process has not been delivered to
  JavaScript, also when the process was signalled before; afterwards the answer is false.
\<close>

definition kill_process :: "nat \<Rightarrow> state \<Rightarrow> bool \<times> state" where
  "kill_process p s =
     (if p < length (procs s) \<and> p_status (procs s ! p) \<noteq> Finished
      then (True, set_status p Killed s)
      else (False, s))"

text \<open>
  The native timers of Node.js; \<^verbatim>\<open>setTimeout\<close> and \<^verbatim>\<open>setInterval\<close> return a Timeout
  object, which gets the next id of the host's counter.
\<close>

definition setTimeout :: "callback \<Rightarrow> rat \<Rightarrow> state \<Rightarrow> jsval \<times> state" where
  "setTimeout cb ms s =
     (Timer (length (timers s)) (nextAsyncId s),
      s\<lparr>timers := timers s @ [\<lparr>t_callback = cb, t_ms = ms, t_repeat = False, t_active = True\<rparr>],
        nextAsyncId := nextAsyncId s + 1\<rparr>)"

definition setInterval :: "callback \<Rightarrow> rat \<Rightarrow> state \<Rightarrow> jsval \<times> state" where
  "setInterval cb ms s =
     (Timer (length (timers s)) (nextAsyncId s),
      s\<lparr>timers := timers s @ [\<lparr>t_callback = cb, t_ms = ms, t_repeat = True, t_active = True\<rparr>],
        nextAsyncId := nextAsyncId s + 1\<rparr>)"

text \<open>
  \<^verbatim>\<open>clearTimeout\<close> cancels the Timeout object it is given and never throws.  Node.js
  defines \<^verbatim>\<open>clearInterval(timer)\<close> as \<^verbatim>\<open>clearTimeout(timer)\<close>.  Node.js also accepts, in
  place of the object, the number of a timer that has been converted to its id; which
  timers have been converted is not recorded here, and a number cancels nothing.
\<close>

definition clearTimeout :: "jsval \<Rightarrow> state \<Rightarrow> state" where
  "clearTimeout h s =
     (case h of
        Timer t k \<Rightarrow>
          (if t < length (timers s)
           then s\<lparr>timers := (timers s)[t := (timers s ! t)\<lparr>t_active := False\<rparr>]\<rparr>
           else s)
      | _ \<Rightarrow> s)"

definition clearInterval :: "jsval \<Rightarrow> state \<Rightarrow> state" where
  "clearInterval h s = clearTimeout h s"

subsection \<open>Scheduling\<close>

text \<open>\<^verbatim>\<open>setShellDelay(callback, ms, recur)\<close>, lines 35 to 57, without the body of the handler.\<close>

definition setShellDelay :: "callback \<Rightarrow> rat \<Rightarrow> bool \<Rightarrow> state \<Rightarrow> jsval \<times> state" where
  "setShellDelay cb ms recur s =
     (if \<not> isSleepAvailable s
      then (if recur then setInterval cb ms s else setTimeout cb ms s)
      else
        (let delayId = nextshellDelayId s;
             s1 = s\<lparr>nextshellDelayId := delayId + 1\<rparr>;
             (p, s2) = exec (Sleep_ms ms)
                         \<lparr>c_callback = cb, c_ms = ms, c_recur = recur, c_delayId = delayId\<rparr> s1;
             s3 = s2\<lparr>shellDelays := (shellDelays s2)(delayId \<mapsto> p)\<rparr>
         in (Num delayId, s3)))"

text \<open>
  The handler given to \<^verbatim>\<open>exec\<close>, lines 44 to 55, for a process with closure \<open>c\<close>, called
  with \<open>error\<close>.  \<open>invoke\<close> runs a user callback: it may do anything, throw or not return.
\<close>

definition exec_callback ::
  "(callback \<Rightarrow> state \<Rightarrow> state outcome) \<Rightarrow> closure \<Rightarrow> exec_error option \<Rightarrow> state \<Rightarrow> state outcome"
where
  "exec_callback invoke c error s =
     (if error = None
      then
        (let s1 = (if c_recur c
                   then (let (h, s') = setShellDelay (c_callback c) (c_ms c) True s
                         in s'\<lparr>shellDelays := (shellDelays s')(c_delayId c \<mapsto> h)\<rparr>)
                   else s)
         in invoke (c_callback c) s1)
      else Some (Inr s))"

definition setShellInterval :: "callback \<Rightarrow> rat \<Rightarrow> state \<Rightarrow> jsval \<times> state" where
  "setShellInterval cb ms s = setShellDelay cb ms True s"

definition setShellTimeout :: "callback \<Rightarrow> rat \<Rightarrow> state \<Rightarrow> jsval \<times> state" where
  "setShellTimeout cb ms s = setShellDelay cb ms False s"

subsection \<open>Cancellation\<close>

text \<open>
  \<^verbatim>\<open>shellDelays[v]\<close>, lines 95 and 97.  The dictionary has an entry only under the slot
  indices written by \<^verbatim>\<open>setShellDelay\<close>.  The key is converted to a property name: a
  number names the slot of that index, a Timeout object converts to its numeric timer id
  and names the slot of that index, and \<^verbatim>\<open>undefined\<close> and a \<^verbatim>\<open>ChildProcess\<close> convert
  to strings that name no slot.  A name with no entry reads as \<^verbatim>\<open>undefined\<close>.
\<close>

definition slot :: "(int \<rightharpoonup> jsval) \<Rightarrow> jsval \<Rightarrow> jsval" where
  "slot reg v =
     (case v of
        Num n \<Rightarrow> (case reg n of Some x \<Rightarrow> x | None \<Rightarrow> Undefined)
      | Timer t k \<Rightarrow> (case reg k of Some x \<Rightarrow> x | None \<Rightarrow> Undefined)
      | _ \<Rightarrow> Undefined)"

text \<open>The inner loop, lines 96 to 98; it need not end.\<close>

partial_function (option) follow :: "(int \<rightharpoonup> jsval) \<Rightarrow> jsval \<Rightarrow> jsval option" where
  "follow reg currentHandle =
     (case currentHandle of
        Num n \<Rightarrow> follow reg (slot reg currentHandle)
      | _ \<Rightarrow> Some currentHandle)"

declare follow.simps [code]

text \<open>
  \<^verbatim>\<open>clearShellDelay(handle)\<close>, lines 90 to 100.  \<open>kill\<close> is the termination capability of
  a process wrapper.  Calling \<^verbatim>\<open>kill\<close> on a value that has no such method is a TypeError.
  The function has no \<^verbatim>\<open>return\<close> statement: its value is always \<^verbatim>\<open>undefined\<close>.
\<close>

partial_function (option) clearShellDelay ::
  "(nat \<Rightarrow> state \<Rightarrow> bool \<times> state) \<Rightarrow> jsval \<Rightarrow> state \<Rightarrow> state outcome"
where
  "clearShellDelay kill handle s =
     (case follow (shellDelays s) (slot (shellDelays s) handle) of
        None \<Rightarrow> None
      | Some currentHandle \<Rightarrow>
          (case currentHandle of
             Proc p \<Rightarrow>
               (case kill p s of
                  (killed, s') \<Rightarrow>
                    if killed then Some (Inr s') else clearShellDelay kill handle s')
           | _ \<Rightarrow> Some (Inl TypeError)))"

declare clearShellDelay.simps [code]

definition clearShellTimeout :: "jsval \<Rightarrow> state \<Rightarrow> state outcome" where
  "clearShellTimeout handle s =
     (if isSleepAvailable s then clearShellDelay kill_process handle s
      else Some (Inr (clearTimeout handle s)))"

definition clearShellInterval :: "jsval \<Rightarrow> state \<Rightarrow> state outcome" where
  "clearShellInterval handle s =
     (if isSleepAvailable s then clearShellDelay kill_process handle s
      else Some (Inr (clearInterval handle s)))"

subsection \<open>The event loop\<close>

text \<open>
  Node.js runs one piece of JavaScript at a time.  Between two pieces the host may deliver
  the completion of a child process or fire a native timer, the sleep utility may appear
  or disappear, and the host may use up timer ids for its own purposes.
\<close>

text \<open>
  The completion of process \<open>p\<close> is delivered once: with no error when the command ran to
  its end, with an error when it was killed.  \<open>failure\<close> is the completion of a command
  that was not killed and fails by itself, as \<^verbatim>\<open>sleep\<close> does on a duration it does not
  accept: the handler is called with an error.
\<close>

definition completion :: "(callback \<Rightarrow> state \<Rightarrow> state outcome) \<Rightarrow> nat \<Rightarrow> state \<Rightarrow> state outcome" where
  "completion invoke p s =
     (if p < length (procs s)
      then (case p_status (procs s ! p) of
              Running \<Rightarrow> exec_callback invoke (p_closure (procs s ! p)) None (set_status p Finished s)
            | Killed \<Rightarrow>
                exec_callback invoke (p_closure (procs s ! p)) (Some CommandFailed)
                  (set_status p Finished s)
            | Finished \<Rightarrow> Some (Inr s))
      else Some (Inr s))"

definition failure :: "(callback \<Rightarrow> state \<Rightarrow> state outcome) \<Rightarrow> nat \<Rightarrow> state \<Rightarrow> state outcome" where
  "failure invoke p s =
     (if p < length (procs s) \<and> p_status (procs s ! p) = Running
      then exec_callback invoke (p_closure (procs s ! p)) (Some CommandFailed)
             (set_status p Finished s)
      else Some (Inr s))"

text \<open>A native timer that is still active fires; a one-shot timer is then spent.\<close>

definition fire :: "(callback \<Rightarrow> state \<Rightarrow> state outcome) \<Rightarrow> nat \<Rightarrow> state \<Rightarrow> state outcome" where
  "fire invoke t s =
     (if t < length (timers s) \<and> t_active (timers s ! t)
      then invoke (t_callback (timers s ! t))
             (if t_repeat (timers s ! t) then s
              else s\<lparr>timers := (timers s)[t := (timers s ! t)\<lparr>t_active := False\<rparr>]\<rparr>)
      else Some (Inr s))"

datatype event =
    CallSetTimeout callback rat
  | CallSetInterval callback rat
  | CallClearTimeout jsval
  | CallClearInterval jsval
  | Completion nat
  | CommandFails nat
  | Fire nat
  | Availability bool
  | HostTakesIds nat

fun step :: "(callback \<Rightarrow> state \<Rightarrow> state outcome) \<Rightarrow> event \<Rightarrow> state \<Rightarrow> state outcome" where
  "step invoke (CallSetTimeout cb ms) s = Some (Inr (snd (setShellTimeout cb ms s)))"
| "step invoke (CallSetInterval cb ms) s = Some (Inr (snd (setShellInterval cb ms s)))"
| "step invoke (CallClearTimeout h) s = clearShellTimeout h s"
| "step invoke (CallClearInterval h) s = clearShellInterval h s"
| "step invoke (Completion p) s = completion invoke p s"
| "step invoke (CommandFails p) s = failure invoke p s"
| "step invoke (Fire t) s = fire invoke t s"
| "step invoke (Availability b) s = Some (Inr (s\<lparr>sleepAvailable := b\<rparr>))"
| "step invoke (HostTakesIds n) s = Some (Inr (s\<lparr>nextAsyncId := nextAsyncId s + int n\<rparr>))"

fun run :: "(callback \<Rightarrow> state \<Rightarrow> state outcome) \<Rightarrow> event list \<Rightarrow> state \<Rightarrow> state outcome" where
  "run invoke [] s = Some (Inr s)"
| "run invoke (e # es) s =
     (case step invoke e s of
        Some (Inr s') \<Rightarrow> run invoke es s'
      | r \<Rightarrow> r)"

text \<open>
  A callback that is only recorded.  What the callback's body calls of this module are
  further events: the handler does nothing after calling it.
\<close>

definition note_call :: "callback \<Rightarrow> state \<Rightarrow> state outcome" where
  "note_call cb s = Some (Inr (s\<lparr>calls := calls s @ [cb]\<rparr>))"

text \<open>
  The states the module can be in are those that \<open>run note_call es (init avail)\<close> returns,
  for a list of events \<open>es\<close>.
\<close>

subsection \<open>The cancellation procedure in the specification's words\<close>

text \<open>
  Section 4.3 of the specification: walk the registry starting at the handle; while the
  current value is an integer, follow it; once a process wrapper is reached, request
  termination; if termination fails, repeat the entire walk from the original handle
  until termination succeeds.  The two functions below are written from these words, on
  the registry itself.  \<open>process_within reg hops k\<close> is the process wrapper that the walk
  starting at slot \<open>k\<close> reaches after at most \<open>hops\<close> indirections;
  \<open>cancelDelay_within kill k hops n s\<close> is the state in which a termination request
  succeeds, after at most \<open>n\<close> walks starting at slot \<open>k\<close>.
\<close>

fun process_within :: "(int \<rightharpoonup> jsval) \<Rightarrow> nat \<Rightarrow> int \<Rightarrow> nat option" where
  "process_within reg 0 k = (case reg k of Some (Proc p) \<Rightarrow> Some p | _ \<Rightarrow> None)"
| "process_within reg (Suc hops) k =
     (case reg k of
        Some (Proc p) \<Rightarrow> Some p
      | Some (Num j) \<Rightarrow> process_within reg hops j
      | _ \<Rightarrow> None)"

fun cancelDelay_within ::
  "(nat \<Rightarrow> state \<Rightarrow> bool \<times> state) \<Rightarrow> int \<Rightarrow> nat \<Rightarrow> nat \<Rightarrow> state \<Rightarrow> state option"
where
  "cancelDelay_within kill k hops 0 s = None"
| "cancelDelay_within kill k hops (Suc n) s =
     (case process_within (shellDelays s) hops k of
        Some p \<Rightarrow>
          (case kill p s of
             (killed, s') \<Rightarrow>
               if killed then Some s' else cancelDelay_within kill k hops n s')
      | None \<Rightarrow> None)"

text \<open>
  A termination capability for the race of section 5 of the specification, on process
  \<open>q\<close>: the process has just run to its end, the request reports failure, and the
  completion of the process is handled before the cancellation walks again.  On every
  other process it is \<open>kill_process\<close>.
\<close>

definition kill_after_exit :: "nat \<Rightarrow> nat \<Rightarrow> state \<Rightarrow> bool \<times> state" where
  "kill_after_exit q p s =
     (if p = q \<and> p < length (procs s) \<and> p_status (procs s ! p) = Running
      then (case completion note_call p s of
              Some (Inr s') \<Rightarrow> (False, s')
            | _ \<Rightarrow> (False, s))
      else kill_process p s)"

subsection \<open>The inner loop with a bound\<close>

text \<open>The value at which the inner loop stops when it makes at most \<open>hops\<close> rounds.\<close>

fun walk_within :: "(int \<rightharpoonup> jsval) \<Rightarrow> nat \<Rightarrow> jsval \<Rightarrow> jsval option" where
  "walk_within reg 0 v = (case v of Num n \<Rightarrow> None | _ \<Rightarrow> Some v)"
| "walk_within reg (Suc hops) v =
     (case v of Num n \<Rightarrow> walk_within reg hops (slot reg v) | _ \<Rightarrow> Some v)"

subsection \<open>Invariants\<close>

text \<open>
  Slots are dispensed in order and never removed, and every handler was created for a
  slot that has been dispensed.
\<close>

definition alloc_inv :: "state \<Rightarrow> bool" where
  "alloc_inv s \<longleftrightarrow>
     0 \<le> nextshellDelayId s \<and>
     (\<forall>i. shellDelays s i \<noteq> None \<longleftrightarrow> 0 \<le> i \<and> i < nextshellDelayId s) \<and>
     (\<forall>p < length (procs s).
        0 \<le> c_delayId (p_closure (procs s ! p)) \<and>
        c_delayId (p_closure (procs s ! p)) < nextshellDelayId s)"

text \<open>
  What slot \<open>i\<close> may hold: the wrapper of a process that was spawned for slot \<open>i\<close>, the
  index of a slot dispensed later, or a native timer.
\<close>

definition slot_ok :: "state \<Rightarrow> int \<Rightarrow> jsval \<Rightarrow> bool" where
  "slot_ok s i v \<longleftrightarrow>
     (\<exists>p. v = Proc p \<and> p < length (procs s) \<and> c_delayId (p_closure (procs s ! p)) = i) \<or>
     (\<exists>j. v = Num j \<and> i < j \<and> j < nextshellDelayId s) \<or>
     (\<exists>t k. v = Timer t k \<and> t < length (timers s))"

definition chain_inv :: "state \<Rightarrow> bool" where
  "chain_inv s \<longleftrightarrow> alloc_inv s \<and> (\<forall>i v. shellDelays s i = Some v \<longrightarrow> slot_ok s i v)"

text \<open>No slot holds a native timer.\<close>

definition no_native_slot :: "state \<Rightarrow> bool" where
  "no_native_slot s \<longleftrightarrow> (\<forall>i t k. shellDelays s i \<noteq> Some (Timer t k))"

text \<open>
  The sleep utility is there whenever the completion of a process is delivered while the
  events \<open>es\<close> happen, \<open>avail\<close> telling whether it is there before the first of them.
\<close>

fun sleep_at_completions :: "bool \<Rightarrow> event list \<Rightarrow> bool" where
  "sleep_at_completions avail [] = True"
| "sleep_at_completions avail (Availability b # es) = sleep_at_completions b es"
| "sleep_at_completions avail (Completion p # es) = (avail \<and> sleep_at_completions avail es)"
| "sleep_at_completions avail (e # es) = sleep_at_completions avail es"

section \<open>Properties\<close>

subsection \<open>The two loops of the cancellation\<close>

lemma follow_Undefined [simp]: "follow reg Undefined = Some Undefined"
  by (subst follow.simps) simp

lemma follow_Proc [simp]: "follow reg (Proc p) = Some (Proc p)"
  by (subst follow.simps) simp

lemma follow_Timer [simp]: "follow reg (Timer t k) = Some (Timer t k)"
  by (subst follow.simps) simp

lemma follow_Num: "follow reg (Num n) = follow reg (slot reg (Num n))"
  by (subst follow.simps) simp

lemma slot_Timer: "slot reg (Timer t k) = slot reg (Num k)"
  by (simp add: slot_def)

lemma walk_within_follow:
  "walk_within reg hops v = Some w \<Longrightarrow> follow reg v = Some w"
proof (induction hops arbitrary: v)
  case 0
  then show ?case by (cases v) auto
next
  case (Suc hops)
  then show ?case by (cases v) (auto simp: follow_Num)
qed

lemma walk_within_mono:
  "walk_within reg hops v = Some w \<Longrightarrow> hops \<le> hops' \<Longrightarrow> walk_within reg hops' v = Some w"
proof (induction hops arbitrary: v hops')
  case 0
  then show ?case by (cases v; cases hops') auto
next
  case (Suc hops)
  then show ?case by (cases v; cases hops') auto
qed

lemma follow_walk_within:
  assumes "follow reg v = Some w"
  shows "\<exists>hops. walk_within reg hops v = Some w"
proof (rule follow.raw_induct
    [where P = "\<lambda>reg v w. \<exists>hops. walk_within reg hops v = Some w", OF _ assms], goal_cases)
  case (1 f reg v w)
  show ?case
  proof (cases v)
    case (Num n)
    with 1(2) have "f reg (slot reg v) = Some w" by simp
    from 1(1) [OF this] obtain hops where "walk_within reg hops (slot reg v) = Some w" ..
    with Num have "walk_within reg (Suc hops) v = Some w" by simp
    then show ?thesis ..
  next
    case Undefined
    with 1 have "walk_within reg 0 v = Some w" by auto
    then show ?thesis ..
  next
    case (Proc p)
    with 1 have "walk_within reg 0 v = Some w" by auto
    then show ?thesis ..
  next
    case (Timer t k)
    with 1 have "walk_within reg 0 v = Some w" by auto
    then show ?thesis ..
  qed
qed


lemma walk_within_stored:
  "walk_within reg hops (slot reg v) = Some w \<Longrightarrow> w \<noteq> Undefined \<Longrightarrow> \<exists>j. reg j = Some w"
proof (induction hops arbitrary: v)
  case 0
  then show ?case by (auto simp add: slot_def split: option.splits jsval.splits)
next
  case (Suc hops)
  show ?case
  proof (cases "slot reg v")
    case (Num j)
    with Suc.prems(1) have "walk_within reg hops (slot reg (Num j)) = Some w" by simp
    then show ?thesis using Suc.prems(2) by (rule Suc.IH)
  qed (use Suc.prems in \<open>auto simp add: slot_def split: option.splits jsval.splits\<close>)
qed

text \<open>
  The walk of the specification and the loop of the code reach the same process: the
  loop started at what slot \<open>k\<close> holds stops at the wrapper of \<open>p\<close> within \<open>hops\<close> rounds
  exactly when the specification's walk from slot \<open>k\<close> reaches \<open>p\<close> within \<open>hops\<close>
  indirections.
\<close>

lemma process_within_walk:
  "process_within reg hops k = Some p \<longleftrightarrow>
     walk_within reg hops (slot reg (Num k)) = Some (Proc p)"
proof (induction hops arbitrary: k)
  case 0
  show ?case
  proof (cases "reg k")
    case None
    then show ?thesis by (simp add: slot_def)
  next
    case (Some v)
    then show ?thesis by (cases v) (auto simp add: slot_def)
  qed
next
  case (Suc hops)
  show ?case
  proof (cases "reg k")
    case None
    then show ?thesis by (simp add: slot_def)
  next
    case (Some v)
    show ?thesis
    proof (cases v)
      case (Num j)
      with Some have "slot reg (Num k) = Num j" by (simp add: slot_def)
      with Some Num Suc.IH [of j] show ?thesis by simp
    qed (use Some in \<open>auto simp add: slot_def\<close>)
  qed
qed

lemma process_within_mono:
  "process_within reg hops k = Some p \<Longrightarrow> hops \<le> hops' \<Longrightarrow>
     process_within reg hops' k = Some p"
  unfolding process_within_walk by (rule walk_within_mono)

lemma process_within_follow:
  assumes "slot reg handle = slot reg (Num k)"
  shows "follow reg (slot reg handle) = Some (Proc p) \<longleftrightarrow>
     (\<exists>hops. process_within reg hops k = Some p)"
  unfolding process_within_walk assms
  using follow_walk_within walk_within_follow by blast

lemma cancelDelay_within_mono:
  "cancelDelay_within kill k hops n s = Some s' \<Longrightarrow> hops \<le> hops' \<Longrightarrow> n \<le> n' \<Longrightarrow>
     cancelDelay_within kill k hops' n' s = Some s'"
proof (induction n arbitrary: s n')
  case 0
  then show ?case by simp
next
  case (Suc n)
  then obtain m where m: "n' = Suc m" "n \<le> m" by (cases n') auto
  from Suc.prems(1) obtain p where
    w: "process_within (shellDelays s) hops k = Some p"
    by (auto split: option.splits)
  then have w': "process_within (shellDelays s) hops' k = Some p"
    using Suc.prems(2) by (rule process_within_mono)
  obtain killed s1 where kl: "kill p s = (killed, s1)" by (cases "kill p s")
  show ?case
  proof (cases killed)
    case True
    with Suc.prems(1) w w' kl m show ?thesis by simp
  next
    case False
    with Suc.prems(1) w kl have "cancelDelay_within kill k hops n s1 = Some s'" by simp
    then have "cancelDelay_within kill k hops' m s1 = Some s'"
      using Suc.prems(2) m(2) by (rule Suc.IH)
    with False w' kl m show ?thesis by simp
  qed
qed

lemma cancelDelay_within_sound:
  assumes key: "\<And>reg. slot reg handle = slot reg (Num k)"
  shows "cancelDelay_within kill k hops n s = Some s' \<Longrightarrow>
     clearShellDelay kill handle s = Some (Inr s')"
proof (induction n arbitrary: s)
  case 0
  then show ?case by simp
next
  case (Suc n)
  from Suc.prems obtain p where
    w: "process_within (shellDelays s) hops k = Some p"
    by (auto split: option.splits)
  then have f: "follow (shellDelays s) (slot (shellDelays s) handle) = Some (Proc p)"
    using process_within_follow [OF key] by blast
  obtain killed s1 where kl: "kill p s = (killed, s1)" by (cases "kill p s")
  show ?case
  proof (cases killed)
    case True
    with Suc.prems w kl f show ?thesis by (subst clearShellDelay.simps) simp
  next
    case False
    with Suc.prems w kl have "cancelDelay_within kill k hops n s1 = Some s'" by simp
    then have "clearShellDelay kill handle s1 = Some (Inr s')" by (rule Suc.IH)
    with False kl f show ?thesis by (subst clearShellDelay.simps) simp
  qed
qed

lemma cancelDelay_within_complete:
  assumes key: "\<And>reg. slot reg handle = slot reg (Num k)"
    and ret: "clearShellDelay kill handle s = Some (Inr s')"
  shows "\<exists>hops n. cancelDelay_within kill k hops n s = Some s'"
proof -
  have "handle = handle \<longrightarrow>
      (\<forall>t. (Inr s' :: js_error + state) = Inr t \<longrightarrow>
         (\<exists>hops n. cancelDelay_within kill k hops n s = Some t))"
  proof (rule clearShellDelay.raw_induct
      [where P = "\<lambda>kill h s r. h = handle \<longrightarrow>
          (\<forall>t. r = Inr t \<longrightarrow> (\<exists>hops n. cancelDelay_within kill k hops n s = Some t))",
        OF _ ret], goal_cases)
    case (1 clear' kill h s r)
    show ?case
    proof (intro allI impI)
      fix t assume h: "h = handle" and r: "r = Inr t"
      from 1(2) r obtain p where
        f: "follow (shellDelays s) (slot (shellDelays s) h) = Some (Proc p)"
        by (auto split: option.splits jsval.splits)
      then obtain hops where
        w: "process_within (shellDelays s) hops k = Some p"
        using process_within_follow [OF key] h by blast
      obtain killed s1 where kl: "kill p s = (killed, s1)" by (cases "kill p s")
      show "\<exists>hops n. cancelDelay_within kill k hops n s = Some t"
      proof (cases killed)
        case True
        with 1(2) r f kl have "s1 = t" by simp
        with True w kl have "cancelDelay_within kill k hops (Suc 0) s = Some t" by simp
        then show ?thesis by blast
      next
        case False
        with 1(2) r f kl have "clear' kill h s1 = Some (Inr t)" by simp
        from 1(1) [OF this] h obtain hops1 n1 where
          c: "cancelDelay_within kill k hops1 n1 s1 = Some t" by blast
        have "cancelDelay_within kill k (max hops hops1) n1 s1 = Some t"
          using c by (rule cancelDelay_within_mono) simp_all
        moreover have "process_within (shellDelays s) (max hops hops1) k = Some p"
          using w by (rule process_within_mono) simp
        ultimately have "cancelDelay_within kill k (max hops hops1) (Suc n1) s = Some t"
          using False kl by simp
        then show ?thesis by blast
      qed
    qed
  qed
  then show ?thesis by simp
qed

lemma clearShellDelay_no_slot:
  "clearShellDelay kill Undefined s = Some (Inl TypeError)"
  "clearShellDelay kill (Proc p) s = Some (Inl TypeError)"
  by (subst clearShellDelay.simps, simp add: slot_def)+

text \<open>
  C1.  While the sleep utility is available both cancel functions are
  \<^verbatim>\<open>clearShellDelay\<close>, and \<^verbatim>\<open>clearShellDelay\<close> is the procedure of section 4.3.  Called
  with the number \<open>i\<close> it returns, in state \<open>s'\<close>, exactly when some number of walks of the
  registry from slot \<open>i\<close>, each following integers to a process wrapper and requesting its
  termination, ends with a request that succeeds and leaves \<open>s'\<close>; every failed request is
  followed by a new walk from slot \<open>i\<close> in the registry of the state that the request
  left.  Called with a Timeout object it does the same from the slot at the timer's id.
  Called with \<^verbatim>\<open>undefined\<close> or a process wrapper it reads no slot and throws.  This
  holds for every termination capability.
\<close>

theorem clearShellDelay_walks_and_retries:
  "(clearShellDelay kill (Num i) s = Some (Inr s') \<longleftrightarrow>
      (\<exists>hops n. cancelDelay_within kill i hops n s = Some s')) \<and>
   (clearShellDelay kill (Timer t k) s = Some (Inr s') \<longleftrightarrow>
      (\<exists>hops n. cancelDelay_within kill k hops n s = Some s')) \<and>
   clearShellDelay kill Undefined s = Some (Inl TypeError) \<and>
   clearShellDelay kill (Proc p) s = Some (Inl TypeError) \<and>
   (isSleepAvailable s \<longrightarrow>
      clearShellTimeout handle s = clearShellDelay kill_process handle s \<and>
      clearShellInterval handle s = clearShellDelay kill_process handle s)"
proof -
  have "clearShellDelay kill (Num i) s = Some (Inr s') \<longleftrightarrow>
      (\<exists>hops n. cancelDelay_within kill i hops n s = Some s')"
    using cancelDelay_within_complete [of "Num i" i kill s s']
      cancelDelay_within_sound [of "Num i" i kill _ _ s s']
    by blast
  moreover have "clearShellDelay kill (Timer t k) s = Some (Inr s') \<longleftrightarrow>
      (\<exists>hops n. cancelDelay_within kill k hops n s = Some s')"
    using cancelDelay_within_complete [of "Timer t k" k kill s s', OF slot_Timer]
      cancelDelay_within_sound [of "Timer t k" k kill _ _ s s', OF slot_Timer]
    by blast
  ultimately show ?thesis
    by (simp add: clearShellTimeout_def clearShellInterval_def clearShellDelay_no_slot)
qed

theorem clearShellDelay_walks_and_retries_witness:
  "cancelDelay_within (kill_after_exit 0) 0 1 2 (snd (setShellInterval 7 1500 (init True))) =
     Some \<lparr>shellDelays = [0 \<mapsto> Num 1, 1 \<mapsto> Proc 1], nextshellDelayId = 2,
       sleepAvailable = True,
       procs = [\<lparr>p_command = Sleep_ms 1500,
                 p_closure = \<lparr>c_callback = 7, c_ms = 1500, c_recur = True, c_delayId = 0\<rparr>,
                 p_status = Finished\<rparr>,
                \<lparr>p_command = Sleep_ms 1500,
                 p_closure = \<lparr>c_callback = 7, c_ms = 1500, c_recur = True, c_delayId = 1\<rparr>,
                 p_status = Killed\<rparr>],
       timers = [], nextAsyncId = 1, calls = [7]\<rparr> \<and>
   clearShellDelay (kill_after_exit 0) (Num 0) (snd (setShellInterval 7 1500 (init True))) =
     Some (Inr \<lparr>shellDelays = [0 \<mapsto> Num 1, 1 \<mapsto> Proc 1], nextshellDelayId = 2,
       sleepAvailable = True,
       procs = [\<lparr>p_command = Sleep_ms 1500,
                 p_closure = \<lparr>c_callback = 7, c_ms = 1500, c_recur = True, c_delayId = 0\<rparr>,
                 p_status = Finished\<rparr>,
                \<lparr>p_command = Sleep_ms 1500,
                 p_closure = \<lparr>c_callback = 7, c_ms = 1500, c_recur = True, c_delayId = 1\<rparr>,
                 p_status = Killed\<rparr>],
       timers = [], nextAsyncId = 1, calls = [7]\<rparr>) \<and>
   isSleepAvailable
     \<lparr>shellDelays = [0 \<mapsto> Num 1, 1 \<mapsto> Proc 1], nextshellDelayId = 2,
       sleepAvailable = True,
       procs = [\<lparr>p_command = Sleep_ms 1500,
                 p_closure = \<lparr>c_callback = 7, c_ms = 1500, c_recur = True, c_delayId = 0\<rparr>,
                 p_status = Finished\<rparr>,
                \<lparr>p_command = Sleep_ms 1500,
                 p_closure = \<lparr>c_callback = 7, c_ms = 1500, c_recur = True, c_delayId = 1\<rparr>,
                 p_status = Running\<rparr>],
       timers = [], nextAsyncId = 1, calls = [7]\<rparr> \<and>
   clearShellInterval (Num 0)
     \<lparr>shellDelays = [0 \<mapsto> Num 1, 1 \<mapsto> Proc 1], nextshellDelayId = 2,
       sleepAvailable = True,
       procs = [\<lparr>p_command = Sleep_ms 1500,
                 p_closure = \<lparr>c_callback = 7, c_ms = 1500, c_recur = True, c_delayId = 0\<rparr>,
                 p_status = Finished\<rparr>,
                \<lparr>p_command = Sleep_ms 1500,
                 p_closure = \<lparr>c_callback = 7, c_ms = 1500, c_recur = True, c_delayId = 1\<rparr>,
                 p_status = Running\<rparr>],
       timers = [], nextAsyncId = 1, calls = [7]\<rparr> =
     Some (Inr \<lparr>shellDelays = [0 \<mapsto> Num 1, 1 \<mapsto> Proc 1], nextshellDelayId = 2,
       sleepAvailable = True,
       procs = [\<lparr>p_command = Sleep_ms 1500,
                 p_closure = \<lparr>c_callback = 7, c_ms = 1500, c_recur = True, c_delayId = 0\<rparr>,
                 p_status = Finished\<rparr>,
                \<lparr>p_command = Sleep_ms 1500,
                 p_closure = \<lparr>c_callback = 7, c_ms = 1500, c_recur = True, c_delayId = 1\<rparr>,
                 p_status = Killed\<rparr>],
       timers = [], nextAsyncId = 1, calls = [7]\<rparr>) \<and>
   clearShellDelay kill_process (Timer 5 1)
     \<lparr>shellDelays = [0 \<mapsto> Num 1, 1 \<mapsto> Proc 1], nextshellDelayId = 2,
       sleepAvailable = True,
       procs = [\<lparr>p_command = Sleep_ms 1500,
                 p_closure = \<lparr>c_callback = 7, c_ms = 1500, c_recur = True, c_delayId = 0\<rparr>,
                 p_status = Finished\<rparr>,
                \<lparr>p_command = Sleep_ms 1500,
                 p_closure = \<lparr>c_callback = 7, c_ms = 1500, c_recur = True, c_delayId = 1\<rparr>,
                 p_status = Running\<rparr>],
       timers = [], nextAsyncId = 1, calls = [7]\<rparr> =
     Some (Inr \<lparr>shellDelays = [0 \<mapsto> Num 1, 1 \<mapsto> Proc 1], nextshellDelayId = 2,
       sleepAvailable = True,
       procs = [\<lparr>p_command = Sleep_ms 1500,
                 p_closure = \<lparr>c_callback = 7, c_ms = 1500, c_recur = True, c_delayId = 0\<rparr>,
                 p_status = Finished\<rparr>,
                \<lparr>p_command = Sleep_ms 1500,
                 p_closure = \<lparr>c_callback = 7, c_ms = 1500, c_recur = True, c_delayId = 1\<rparr>,
                 p_status = Killed\<rparr>],
       timers = [], nextAsyncId = 1, calls = [7]\<rparr>)"
proof -
  let ?s0 = "snd (setShellInterval 7 1500 (init True))"
  let ?p0 = "\<lparr>p_command = Sleep_ms 1500,
                 p_closure = \<lparr>c_callback = 7, c_ms = 1500, c_recur = True, c_delayId = 0\<rparr>,
                 p_status = Finished\<rparr>"
  let ?c1 = "\<lparr>c_callback = 7, c_ms = 1500, c_recur = True, c_delayId = 1\<rparr>"
  let ?s1 = "\<lparr>shellDelays = [0 \<mapsto> Num 1, 1 \<mapsto> Proc 1], nextshellDelayId = 2,
       sleepAvailable = True,
       procs = [?p0, \<lparr>p_command = Sleep_ms 1500, p_closure = ?c1, p_status = Running\<rparr>],
       timers = [], nextAsyncId = 1, calls = [7]\<rparr>"
  let ?s2 = "\<lparr>shellDelays = [0 \<mapsto> Num 1, 1 \<mapsto> Proc 1], nextshellDelayId = 2,
       sleepAvailable = True,
       procs = [?p0, \<lparr>p_command = Sleep_ms 1500, p_closure = ?c1, p_status = Killed\<rparr>],
       timers = [], nextAsyncId = 1, calls = [7]\<rparr>"
  have s0: "?s0 = \<lparr>shellDelays = [0 \<mapsto> Proc 0], nextshellDelayId = 1, sleepAvailable = True,
       procs = [\<lparr>p_command = Sleep_ms 1500,
                 p_closure = \<lparr>c_callback = 7, c_ms = 1500, c_recur = True, c_delayId = 0\<rparr>,
                 p_status = Running\<rparr>],
       timers = [], nextAsyncId = 1, calls = []\<rparr>"
    by (simp add: setShellInterval_def setShellDelay_def init_def exec_def isSleepAvailable_def
        Let_def)
  have race: "kill_after_exit 0 0 ?s0 = (False, ?s1)"
    by (simp add: s0 kill_after_exit_def completion_def exec_callback_def set_status_def
        setShellDelay_def isSleepAvailable_def exec_def Let_def note_call_def fun_upd_twist)
  have k1: "kill_after_exit 0 1 ?s1 = (True, ?s2)"
    by (simp add: kill_after_exit_def kill_process_def set_status_def)
  have k2: "kill_process 1 ?s1 = (True, ?s2)"
    by (simp add: kill_process_def set_status_def)
  have a: "cancelDelay_within (kill_after_exit 0) 0 1 2 ?s0 = Some ?s2"
    using race k1 by (simp add: numeral_2_eq_2 s0)
  have b: "cancelDelay_within kill_process 0 1 1 ?s1 = Some ?s2"
    using k2 by simp
  have c: "cancelDelay_within kill_process 1 0 1 ?s1 = Some ?s2"
    using k2 by simp
  have av: "isSleepAvailable ?s1" by (simp add: isSleepAvailable_def)
  from a clearShellDelay_walks_and_retries [of "kill_after_exit 0" 0 ?s0 ?s2]
  have 1: "clearShellDelay (kill_after_exit 0) (Num 0) ?s0 = Some (Inr ?s2)" by blast
  from b clearShellDelay_walks_and_retries [of kill_process 0 ?s1 ?s2]
  have "clearShellDelay kill_process (Num 0) ?s1 = Some (Inr ?s2)" by blast
  moreover from av clearShellDelay_walks_and_retries [of kill_process 0 ?s1 ?s2 0 0 0 "Num 0"]
  have "clearShellInterval (Num 0) ?s1 = clearShellDelay kill_process (Num 0) ?s1" by blast
  ultimately have 2: "clearShellInterval (Num 0) ?s1 = Some (Inr ?s2)" by simp
  from c clearShellDelay_walks_and_retries [of kill_process 0 ?s1 ?s2 5 1]
  have 3: "clearShellDelay kill_process (Timer 5 1) ?s1 = Some (Inr ?s2)" by blast
  from a 1 av 2 3 show ?thesis by blast
qed

subsection \<open>Scheduling and the completion handler\<close>

lemma setShellDelay_available:
  "isSleepAvailable s \<Longrightarrow>
     setShellDelay cb ms recur s =
       (Num (nextshellDelayId s),
        s\<lparr>nextshellDelayId := nextshellDelayId s + 1,
          procs := procs s @ [\<lparr>p_command = Sleep_ms ms,
                   p_closure = \<lparr>c_callback = cb, c_ms = ms, c_recur = recur,
                                 c_delayId = nextshellDelayId s\<rparr>,
                   p_status = Running\<rparr>],
          shellDelays := (shellDelays s)(nextshellDelayId s \<mapsto> Proc (length (procs s)))\<rparr>)"
  by (simp add: setShellDelay_def exec_def Let_def)

lemma setShellDelay_unavailable:
  "\<not> isSleepAvailable s \<Longrightarrow>
     setShellDelay cb ms recur s = (if recur then setInterval cb ms s else setTimeout cb ms s)"
  by (simp add: setShellDelay_def)

text \<open>
  C4.  Called with an error, the handler returns at once, whatever the callback is and
  whether the delay recurs or not.  So delivering the completion of a killed process
  changes nothing but the status of that process: no callback is called, no delay is
  scheduled, no slot is written.
\<close>

theorem handler_ignores_killed_process:
  "exec_callback invoke c (Some e) s = Some (Inr s) \<and>
   (p < length (procs s) \<and> p_status (procs s ! p) = Killed \<longrightarrow>
      completion invoke p s = Some (Inr (set_status p Finished s)) \<and>
      shellDelays (set_status p Finished s) = shellDelays s \<and>
      nextshellDelayId (set_status p Finished s) = nextshellDelayId s \<and>
      length (procs (set_status p Finished s)) = length (procs s) \<and>
      timers (set_status p Finished s) = timers s \<and>
      calls (set_status p Finished s) = calls s)"
  by (simp add: exec_callback_def completion_def set_status_def)

theorem handler_ignores_killed_process_witness:
  "0 < length (procs (snd (kill_process 0 (snd (setShellInterval 7 1500 (init True)))))) \<and>
   p_status (procs (snd (kill_process 0 (snd (setShellInterval 7 1500 (init True))))) ! 0) = Killed \<and>
   completion note_call 0 (snd (kill_process 0 (snd (setShellInterval 7 1500 (init True))))) =
     Some (Inr (set_status 0 Finished (snd (kill_process 0 (snd (setShellInterval 7 1500 (init True))))))) \<and>
   calls (set_status 0 Finished (snd (kill_process 0 (snd (setShellInterval 7 1500 (init True)))))) = [] \<and>
   nextshellDelayId (set_status 0 Finished (snd (kill_process 0 (snd (setShellInterval 7 1500 (init True)))))) = 1"
proof -
  let ?s = "snd (kill_process 0 (snd (setShellInterval 7 1500 (init True))))"
  have a: "0 < length (procs ?s) \<and> p_status (procs ?s ! 0) = Killed"
    by (simp add: setShellInterval_def setShellDelay_def init_def exec_def isSleepAvailable_def
        Let_def kill_process_def set_status_def)
  have b: "calls ?s = []" "nextshellDelayId ?s = 1"
    by (simp_all add: setShellInterval_def setShellDelay_def init_def exec_def isSleepAvailable_def
        Let_def kill_process_def set_status_def)
  show ?thesis
    using a b handler_ignores_killed_process
        [of note_call "p_closure (procs ?s ! 0)" CommandFailed ?s 0]
    by simp
qed

text \<open>
  C5.  \<^verbatim>\<open>clearShellInterval\<close> and \<^verbatim>\<open>clearShellTimeout\<close> do the same for every handle in
  every state: with the sleep utility both are \<^verbatim>\<open>clearShellDelay\<close>, without it one calls
  \<^verbatim>\<open>clearInterval\<close> and the other \<^verbatim>\<open>clearTimeout\<close>, which Node.js defines as one
  operation.
\<close>

theorem clear_wrappers_identical:
  "clearShellInterval handle s = clearShellTimeout handle s"
  by (simp add: clearShellInterval_def clearShellTimeout_def clearInterval_def)

text \<open>
  C7.  Without the sleep utility a scheduling call is the native \<^verbatim>\<open>setTimeout\<close> or
  \<^verbatim>\<open>setInterval\<close> call: same handle, same state.  It leaves the dictionary and the
  counter as they are and does not depend on them.  The cancel calls hand the handle to
  \<^verbatim>\<open>clearTimeout\<close> and \<^verbatim>\<open>clearInterval\<close>, which do not depend on them either.
\<close>

theorem fallback_delegates_to_native:
  "\<not> isSleepAvailable s \<Longrightarrow>
     setShellTimeout cb ms s = setTimeout cb ms s \<and>
     setShellInterval cb ms s = setInterval cb ms s \<and>
     shellDelays (snd (setShellTimeout cb ms s)) = shellDelays s \<and>
     shellDelays (snd (setShellInterval cb ms s)) = shellDelays s \<and>
     nextshellDelayId (snd (setShellTimeout cb ms s)) = nextshellDelayId s \<and>
     nextshellDelayId (snd (setShellInterval cb ms s)) = nextshellDelayId s \<and>
     setShellTimeout cb ms (s\<lparr>shellDelays := reg, nextshellDelayId := n\<rparr>) =
       (fst (setShellTimeout cb ms s),
        (snd (setShellTimeout cb ms s))\<lparr>shellDelays := reg, nextshellDelayId := n\<rparr>) \<and>
     setShellInterval cb ms (s\<lparr>shellDelays := reg, nextshellDelayId := n\<rparr>) =
       (fst (setShellInterval cb ms s),
        (snd (setShellInterval cb ms s))\<lparr>shellDelays := reg, nextshellDelayId := n\<rparr>) \<and>
     clearShellTimeout handle s = Some (Inr (clearTimeout handle s)) \<and>
     clearShellInterval handle s = Some (Inr (clearInterval handle s)) \<and>
     clearTimeout handle (s\<lparr>shellDelays := reg, nextshellDelayId := n\<rparr>) =
       (clearTimeout handle s)\<lparr>shellDelays := reg, nextshellDelayId := n\<rparr> \<and>
     clearInterval handle (s\<lparr>shellDelays := reg, nextshellDelayId := n\<rparr>) =
       (clearInterval handle s)\<lparr>shellDelays := reg, nextshellDelayId := n\<rparr>"
  by (simp add: setShellTimeout_def setShellInterval_def setShellDelay_def
      isSleepAvailable_def setTimeout_def setInterval_def clearShellTimeout_def
      clearShellInterval_def clearTimeout_def clearInterval_def split: jsval.splits)

theorem fallback_delegates_to_native_witness:
  "\<not> isSleepAvailable (init False) \<and>
   setShellTimeout 7 1500 (init False) = setTimeout 7 1500 (init False) \<and>
   fst (setShellInterval 7 1500 (init False)) = Timer 0 1 \<and>
   shellDelays (snd (setShellInterval 7 1500 (init False))) 0 = None \<and>
   nextshellDelayId (snd (setShellInterval 7 1500 (init False))) = 0 \<and>
   clearShellInterval (Timer 0 1) (init False) = Some (Inr (clearInterval (Timer 0 1) (init False)))"
proof -
  have a: "\<not> isSleepAvailable (init False)" by (simp add: isSleepAvailable_def init_def)
  have b: "fst (setInterval 7 1500 (init False)) = Timer 0 1" by (simp add: setInterval_def init_def)
  have c: "shellDelays (init False) 0 = None" "nextshellDelayId (init False) = 0"
    by (simp_all add: init_def)
  show ?thesis
    using a b c fallback_delegates_to_native
        [OF a, where cb = 7 and ms = 1500 and handle = "Timer 0 1" and reg = Map.empty and n = 0]
    by (simp add: setInterval_def)
qed

subsection \<open>Handles that were never dispensed\<close>

text \<open>
  C9.  With the sleep utility, cancelling a number that has no entry in the dictionary
  reads \<^verbatim>\<open>undefined\<close> and throws a TypeError from the call of \<^verbatim>\<open>kill\<close>, through either
  cancel function.
\<close>

theorem clear_unallocated_handle_throws:
  "isSleepAvailable s \<Longrightarrow> shellDelays s n = None \<Longrightarrow>
     clearShellTimeout (Num n) s = Some (Inl TypeError) \<and>
     clearShellInterval (Num n) s = Some (Inl TypeError)"
  by (simp add: clearShellTimeout_def clearShellInterval_def clearShellDelay.simps
        follow.simps slot_def)

theorem clear_unallocated_handle_throws_witness:
  "isSleepAvailable (init True) \<and> shellDelays (init True) 0 = None \<and>
     clearShellTimeout (Num 0) (init True) = Some (Inl TypeError) \<and>
     clearShellInterval (Num 0) (init True) = Some (Inl TypeError)"
proof -
  have a: "isSleepAvailable (init True)" by (simp add: isSleepAvailable_def init_def)
  have b: "shellDelays (init True) 0 = None" by (simp add: init_def)
  show ?thesis using a b clear_unallocated_handle_throws [OF a b] by simp
qed

subsection \<open>What every reachable state satisfies\<close>

lemma set_status_fields [simp]:
  "shellDelays (set_status p st s) = shellDelays s"
  "nextshellDelayId (set_status p st s) = nextshellDelayId s"
  "sleepAvailable (set_status p st s) = sleepAvailable s"
  "timers (set_status p st s) = timers s"
  "calls (set_status p st s) = calls s"
  "length (procs (set_status p st s)) = length (procs s)"
  by (simp_all add: set_status_def)

lemma set_status_closure [simp]:
  "q < length (procs s) \<Longrightarrow>
     p_closure (procs (set_status p st s) ! q) = p_closure (procs s ! q)"
  by (cases "p = q") (simp_all add: set_status_def)

lemma chain_invI:
  assumes "0 \<le> nextshellDelayId s"
    and "\<And>i. shellDelays s i \<noteq> None \<longleftrightarrow> 0 \<le> i \<and> i < nextshellDelayId s"
    and "\<And>p. p < length (procs s) \<Longrightarrow>
           0 \<le> c_delayId (p_closure (procs s ! p)) \<and>
           c_delayId (p_closure (procs s ! p)) < nextshellDelayId s"
    and "\<And>i v. shellDelays s i = Some v \<Longrightarrow> slot_ok s i v"
  shows "chain_inv s"
  using assms unfolding chain_inv_def alloc_inv_def slot_ok_def by blast

lemma chain_inv_counter: "chain_inv s \<Longrightarrow> 0 \<le> nextshellDelayId s"
  by (simp add: chain_inv_def alloc_inv_def)

lemma chain_inv_dom:
  "chain_inv s \<Longrightarrow> shellDelays s i \<noteq> None \<longleftrightarrow> 0 \<le> i \<and> i < nextshellDelayId s"
  by (simp add: chain_inv_def alloc_inv_def)

lemma chain_inv_closure:
  "chain_inv s \<Longrightarrow> p < length (procs s) \<Longrightarrow>
     0 \<le> c_delayId (p_closure (procs s ! p)) \<and>
     c_delayId (p_closure (procs s ! p)) < nextshellDelayId s"
  by (simp add: chain_inv_def alloc_inv_def)

lemma chain_inv_slot: "chain_inv s \<Longrightarrow> shellDelays s i = Some v \<Longrightarrow> slot_ok s i v"
  unfolding chain_inv_def slot_ok_def by blast

lemma slot_ok_mono:
  assumes "slot_ok s i v"
    and "length (procs s) \<le> length (procs s')"
    and "\<And>p. p < length (procs s) \<Longrightarrow> p_closure (procs s' ! p) = p_closure (procs s ! p)"
    and "nextshellDelayId s \<le> nextshellDelayId s'"
    and "length (timers s) \<le> length (timers s')"
  shows "slot_ok s' i v"
proof -
  from assms(1) consider
    (proc) p where "v = Proc p" "p < length (procs s)" "c_delayId (p_closure (procs s ! p)) = i"
    | (num) j where "v = Num j" "i < j" "j < nextshellDelayId s"
    | (timer) t k where "v = Timer t k" "t < length (timers s)"
    unfolding slot_ok_def by blast
  then show ?thesis
  proof cases
    case proc
    then have "p < length (procs s')" "c_delayId (p_closure (procs s' ! p)) = i"
      using assms(2,3) by simp_all
    with proc(1) show ?thesis unfolding slot_ok_def by blast
  next
    case num
    then have "j < nextshellDelayId s'" using assms(4) by simp
    with num show ?thesis unfolding slot_ok_def by blast
  next
    case timer
    then have "t < length (timers s')" using assms(5) by simp
    with timer show ?thesis unfolding slot_ok_def by blast
  qed
qed

lemma chain_inv_init: "chain_inv (init avail)"
  by (simp add: chain_inv_def alloc_inv_def init_def)

lemma chain_inv_frame:
  assumes "chain_inv s"
    and "shellDelays s' = shellDelays s"
    and "nextshellDelayId s' = nextshellDelayId s"
    and "length (procs s') = length (procs s)"
    and "\<And>p. p < length (procs s) \<Longrightarrow> p_closure (procs s' ! p) = p_closure (procs s ! p)"
    and "length (timers s) \<le> length (timers s')"
  shows "chain_inv s'"
proof (rule chain_invI)
  show "0 \<le> nextshellDelayId s'" using chain_inv_counter [OF assms(1)] assms(3) by simp
next
  fix i
  show "shellDelays s' i \<noteq> None \<longleftrightarrow> 0 \<le> i \<and> i < nextshellDelayId s'"
    using chain_inv_dom [OF assms(1), of i] assms(2,3) by simp
next
  fix p assume "p < length (procs s')"
  then show "0 \<le> c_delayId (p_closure (procs s' ! p)) \<and>
        c_delayId (p_closure (procs s' ! p)) < nextshellDelayId s'"
    using chain_inv_closure [OF assms(1), of p] assms(3,4,5) by simp
next
  fix i v assume "shellDelays s' i = Some v"
  then have "slot_ok s i v" using assms(1,2) by (simp add: chain_inv_slot)
  then show "slot_ok s' i v"
    by (rule slot_ok_mono) (simp_all add: assms)
qed

lemma chain_inv_set_status: "chain_inv s \<Longrightarrow> chain_inv (set_status p st s)"
  by (erule chain_inv_frame) simp_all

lemma chain_inv_note_call: "chain_inv s \<Longrightarrow> chain_inv (s\<lparr>calls := cs\<rparr>)"
  by (erule chain_inv_frame) simp_all

lemma chain_inv_availability: "chain_inv s \<Longrightarrow> chain_inv (s\<lparr>sleepAvailable := b\<rparr>)"
  by (erule chain_inv_frame) simp_all

lemma chain_inv_native:
  "chain_inv s \<Longrightarrow> length (timers s) \<le> length ts \<Longrightarrow> chain_inv (s\<lparr>timers := ts\<rparr>)"
  by (erule chain_inv_frame) simp_all

lemma chain_inv_host: "chain_inv s \<Longrightarrow> chain_inv (s\<lparr>nextAsyncId := n\<rparr>)"
  by (erule chain_inv_frame) simp_all

lemma chain_inv_spawn:
  assumes "chain_inv s"
  shows "chain_inv
    (s\<lparr>nextshellDelayId := nextshellDelayId s + 1,
       procs := procs s @ [\<lparr>p_command = cmd,
                   p_closure = \<lparr>c_callback = cb, c_ms = ms, c_recur = recur,
                                 c_delayId = nextshellDelayId s\<rparr>,
                   p_status = Running\<rparr>],
       shellDelays := (shellDelays s)(nextshellDelayId s \<mapsto> Proc (length (procs s)))\<rparr>)"
    (is "chain_inv ?s'")
proof (rule chain_invI)
  show "0 \<le> nextshellDelayId ?s'" using chain_inv_counter [OF assms] by simp
next
  fix i
  show "shellDelays ?s' i \<noteq> None \<longleftrightarrow> 0 \<le> i \<and> i < nextshellDelayId ?s'"
    using chain_inv_dom [OF assms, of i] chain_inv_counter [OF assms] by auto
next
  fix p assume "p < length (procs ?s')"
  then show "0 \<le> c_delayId (p_closure (procs ?s' ! p)) \<and>
        c_delayId (p_closure (procs ?s' ! p)) < nextshellDelayId ?s'"
    using chain_inv_closure [OF assms, of p] chain_inv_counter [OF assms]
    by (cases "p < length (procs s)") (auto simp add: nth_append)
next
  fix i v assume a: "shellDelays ?s' i = Some v"
  show "slot_ok ?s' i v"
  proof (cases "i = nextshellDelayId s")
    case True
    with a show ?thesis by (auto simp add: slot_ok_def)
  next
    case False
    with a have "slot_ok s i v" using assms by (simp add: chain_inv_slot)
    then show ?thesis by (rule slot_ok_mono) (simp_all add: nth_append)
  qed
qed

lemma chain_inv_setShellDelay:
  assumes "chain_inv s"
  shows "chain_inv (snd (setShellDelay cb ms recur s))"
proof (cases "isSleepAvailable s")
  case True
  show ?thesis
    unfolding setShellDelay_available [OF True] snd_conv
    using assms by (rule chain_inv_spawn)
next
  case False
  then show ?thesis
    using assms
    by (auto simp add: setShellDelay_unavailable setInterval_def setTimeout_def
        intro!: chain_inv_native chain_inv_host)
qed

lemma chain_inv_overwrite:
  assumes "chain_inv s" and "0 \<le> d" and "d < nextshellDelayId s" and "slot_ok s d v"
  shows "chain_inv (s\<lparr>shellDelays := (shellDelays s)(d \<mapsto> v)\<rparr>)" (is "chain_inv ?s'")
proof (rule chain_invI)
  show "0 \<le> nextshellDelayId ?s'" using chain_inv_counter [OF assms(1)] by simp
next
  fix i
  show "shellDelays ?s' i \<noteq> None \<longleftrightarrow> 0 \<le> i \<and> i < nextshellDelayId ?s'"
    using chain_inv_dom [OF assms(1), of i] assms(2,3) by auto
next
  fix p assume "p < length (procs ?s')"
  then show "0 \<le> c_delayId (p_closure (procs ?s' ! p)) \<and>
        c_delayId (p_closure (procs ?s' ! p)) < nextshellDelayId ?s'"
    using chain_inv_closure [OF assms(1), of p] by simp
next
  fix i w assume a: "shellDelays ?s' i = Some w"
  show "slot_ok ?s' i w"
  proof (cases "i = d")
    case True
    with a have "w = v" by simp
    with True assms(4) show ?thesis by (simp add: slot_ok_def)
  next
    case False
    with a have "slot_ok s i w" using assms(1) by (simp add: chain_inv_slot)
    then show ?thesis by (rule slot_ok_mono) simp_all
  qed
qed

lemma clearShellDelay_kill_process_result:
  assumes "clearShellDelay kill_process h s = Some r"
    and "follow (shellDelays s) (slot (shellDelays s) h) = Some (Proc p)"
  shows "p < length (procs s) \<and> p_status (procs s ! p) \<noteq> Finished \<and>
     r = Inr (set_status p Killed s)"
proof -
  have "kill_process = kill_process \<longrightarrow>
      (\<forall>p. follow (shellDelays s) (slot (shellDelays s) h) = Some (Proc p) \<longrightarrow>
         p < length (procs s) \<and> p_status (procs s ! p) \<noteq> Finished \<and>
         r = Inr (set_status p Killed s))"
  proof (rule clearShellDelay.raw_induct
      [where P = "\<lambda>kill h s r. kill = kill_process \<longrightarrow>
          (\<forall>p. follow (shellDelays s) (slot (shellDelays s) h) = Some (Proc p) \<longrightarrow>
             p < length (procs s) \<and> p_status (procs s ! p) \<noteq> Finished \<and>
             r = Inr (set_status p Killed s))", OF _ assms(1)], goal_cases)
    case (1 clear' kill h s r)
    show ?case
    proof (intro impI allI)
      fix p
      assume k: "kill = kill_process"
        and f: "follow (shellDelays s) (slot (shellDelays s) h) = Some (Proc p)"
      show "p < length (procs s) \<and> p_status (procs s ! p) \<noteq> Finished \<and>
          r = Inr (set_status p Killed s)"
      proof (cases "p < length (procs s) \<and> p_status (procs s ! p) \<noteq> Finished")
        case True
        with 1(2) k f show ?thesis by (auto simp add: kill_process_def)
      next
        case False
        with 1(2) k f have "clear' kill h s = Some r" by (auto simp add: kill_process_def)
        from 1(1) [OF this] k f show ?thesis by blast
      qed
    qed
  qed
  with assms(2) show ?thesis by blast
qed

lemma clearShellDelay_kill_process:
  assumes "clearShellDelay kill_process h s = Some (Inr s')"
  shows "\<exists>p. s' = set_status p Killed s"
proof -
  from assms obtain p where
    "follow (shellDelays s) (slot (shellDelays s) h) = Some (Proc p)"
    by (subst (asm) clearShellDelay.simps) (auto split: option.splits jsval.splits)
  from clearShellDelay_kill_process_result [OF assms this] show ?thesis by blast
qed

lemma chain_inv_clearTimeout: "chain_inv s \<Longrightarrow> chain_inv (clearTimeout h s)"
  by (auto simp add: clearTimeout_def split: jsval.splits intro!: chain_inv_native)

lemma chain_inv_clear:
  assumes "chain_inv s"
  shows "clearShellTimeout h s = Some (Inr s') \<Longrightarrow> chain_inv s'"
    and "clearShellInterval h s = Some (Inr s') \<Longrightarrow> chain_inv s'"
  using assms
  by (auto simp add: clearShellTimeout_def clearShellInterval_def clearInterval_def
      chain_inv_clearTimeout chain_inv_set_status
      dest!: clearShellDelay_kill_process split: if_splits)

lemma setShellDelay_handle_ok:
  assumes "d < nextshellDelayId s"
  shows "slot_ok (snd (setShellDelay cb ms recur s)) d (fst (setShellDelay cb ms recur s))"
proof (cases "isSleepAvailable s")
  case True
  show ?thesis
    unfolding setShellDelay_available [OF True] using assms by (simp add: slot_ok_def)
next
  case False
  then show ?thesis
    by (simp add: setShellDelay_unavailable setInterval_def setTimeout_def slot_ok_def)
qed

lemma setShellDelay_counter_mono:
  "nextshellDelayId s \<le> nextshellDelayId (snd (setShellDelay cb ms recur s))"
  by (cases "isSleepAvailable s")
    (simp_all add: setShellDelay_available setShellDelay_unavailable setInterval_def setTimeout_def)

lemma chain_inv_exec_callback:
  assumes "chain_inv s" and "0 \<le> c_delayId c" and "c_delayId c < nextshellDelayId s"
    and "exec_callback note_call c error s = Some (Inr s')"
  shows "chain_inv s'"
proof (cases "error = None \<and> c_recur c")
  case True
  obtain h s1 where r: "setShellDelay (c_callback c) (c_ms c) True s = (h, s1)"
    by (cases "setShellDelay (c_callback c) (c_ms c) True s")
  have 1: "chain_inv s1"
    using chain_inv_setShellDelay [OF assms(1), of "c_callback c" "c_ms c" True] r by simp
  have 2: "slot_ok s1 (c_delayId c) h"
    using setShellDelay_handle_ok [OF assms(3), of "c_callback c" "c_ms c" True] r by simp
  have 3: "c_delayId c < nextshellDelayId s1"
    using setShellDelay_counter_mono [of s "c_callback c" "c_ms c" True] r assms(3) by simp
  have "chain_inv (s1\<lparr>shellDelays := (shellDelays s1)(c_delayId c \<mapsto> h)\<rparr>)"
    using 1 assms(2) 3 2 by (rule chain_inv_overwrite)
  then have "chain_inv ((s1\<lparr>shellDelays := (shellDelays s1)(c_delayId c \<mapsto> h)\<rparr>)
      \<lparr>calls := calls s1 @ [c_callback c]\<rparr>)"
    by (rule chain_inv_note_call)
  moreover have "s' = (s1\<lparr>shellDelays := (shellDelays s1)(c_delayId c \<mapsto> h)\<rparr>)
      \<lparr>calls := calls s1 @ [c_callback c]\<rparr>"
    using assms(4) True r by (simp add: exec_callback_def note_call_def)
  ultimately show ?thesis by simp
next
  case False
  then have "s' = s \<or> s' = s\<lparr>calls := calls s @ [c_callback c]\<rparr>"
    using assms(4) by (auto simp add: exec_callback_def note_call_def split: if_splits)
  then show ?thesis using assms(1) chain_inv_note_call by auto
qed

lemma chain_inv_completion:
  assumes "chain_inv s" and "completion note_call p s = Some (Inr s')"
  shows "chain_inv s'"
proof (cases "p < length (procs s) \<and> p_status (procs s ! p) \<noteq> Finished")
  case True
  let ?c = "p_closure (procs s ! p)"
  from True assms(2) obtain error where
    e: "exec_callback note_call ?c error (set_status p Finished s) = Some (Inr s')"
    by (auto simp add: completion_def split: proc_status.splits)
  have "chain_inv (set_status p Finished s)" using assms(1) by (rule chain_inv_set_status)
  moreover have "0 \<le> c_delayId ?c" "c_delayId ?c < nextshellDelayId (set_status p Finished s)"
    using chain_inv_closure [OF assms(1), of p] True by simp_all
  ultimately show ?thesis using e by (rule chain_inv_exec_callback)
next
  case False
  with assms show ?thesis
    by (auto simp add: completion_def split: proc_status.splits if_splits)
qed

lemma chain_inv_failure:
  assumes "chain_inv s" and "failure note_call p s = Some (Inr s')"
  shows "chain_inv s'"
  using assms
  by (auto simp add: failure_def exec_callback_def chain_inv_set_status split: if_splits)

lemma chain_inv_fire:
  assumes "chain_inv s" and "fire note_call t s = Some (Inr s')"
  shows "chain_inv s'"
  using assms
  by (auto simp add: fire_def note_call_def split: if_splits
      intro!: chain_inv_note_call chain_inv_native)

lemma chain_inv_step:
  assumes "chain_inv s" and "step note_call e s = Some (Inr s')"
  shows "chain_inv s'"
  using assms
  by (cases e)
    (auto simp add: setShellTimeout_def setShellInterval_def
      intro: chain_inv_setShellDelay chain_inv_clear chain_inv_completion chain_inv_failure
        chain_inv_fire chain_inv_availability chain_inv_host)

lemma chain_inv_run:
  "chain_inv s \<Longrightarrow> run note_call es s = Some (Inr s') \<Longrightarrow> chain_inv s'"
proof (induction es arbitrary: s)
  case Nil
  then show ?case by simp
next
  case (Cons e es)
  from Cons.prems(2) obtain s1 where
    1: "step note_call e s = Some (Inr s1)" and 2: "run note_call es s1 = Some (Inr s')"
    by (auto split: option.splits sum.splits)
  from Cons.prems(1) 1 have "chain_inv s1" by (rule chain_inv_step)
  then show ?case using 2 by (rule Cons.IH)
qed

subsection \<open>Runs in which every completion finds the sleep utility\<close>

lemma setShellDelay_sleepAvailable [simp]:
  "sleepAvailable (snd (setShellDelay cb ms recur s)) = sleepAvailable s"
  by (cases "isSleepAvailable s")
    (simp_all add: setShellDelay_available setShellDelay_unavailable setInterval_def
      setTimeout_def)

lemma no_native_slot_setShellDelay:
  "no_native_slot s \<Longrightarrow> no_native_slot (snd (setShellDelay cb ms recur s))"
  by (cases "isSleepAvailable s")
    (simp_all add: no_native_slot_def setShellDelay_available setShellDelay_unavailable
      setInterval_def setTimeout_def)

lemma exec_callback_sleepAvailable:
  "exec_callback note_call c error s = Some (Inr s') \<Longrightarrow> sleepAvailable s' = sleepAvailable s"
  by (auto simp add: exec_callback_def note_call_def split_beta Let_def split: if_splits)

lemma no_native_slot_exec_callback:
  assumes "no_native_slot s" and "sleepAvailable s \<or> error \<noteq> None"
    and "exec_callback note_call c error s = Some (Inr s')"
  shows "no_native_slot s'"
  using assms
  by (auto simp add: no_native_slot_def exec_callback_def note_call_def setShellDelay_available
      isSleepAvailable_def split: if_splits)

lemma clear_sleepAvailable:
  "clearShellTimeout h s = Some (Inr s') \<Longrightarrow> sleepAvailable s' = sleepAvailable s"
  "clearShellInterval h s = Some (Inr s') \<Longrightarrow> sleepAvailable s' = sleepAvailable s"
  by (auto simp add: clearShellTimeout_def clearShellInterval_def clearInterval_def
      clearTimeout_def dest!: clearShellDelay_kill_process split: if_splits jsval.splits)

lemma no_native_slot_clear:
  assumes "no_native_slot s"
  shows "clearShellTimeout h s = Some (Inr s') \<Longrightarrow> no_native_slot s'"
    and "clearShellInterval h s = Some (Inr s') \<Longrightarrow> no_native_slot s'"
  using assms
  by (auto simp add: clearShellTimeout_def clearShellInterval_def clearInterval_def
      clearTimeout_def no_native_slot_def
      dest!: clearShellDelay_kill_process split: if_splits jsval.splits)

lemma step_sleepAvailable:
  assumes "\<And>b. e \<noteq> Availability b" and "step note_call e s = Some (Inr s')"
  shows "sleepAvailable s' = sleepAvailable s"
proof (cases e)
  case (Completion p)
  with assms(2) show ?thesis
    by (auto simp add: completion_def split: if_splits proc_status.splits
        dest!: exec_callback_sleepAvailable)
next
  case (CommandFails p)
  with assms(2) show ?thesis
    by (auto simp add: failure_def split: if_splits dest!: exec_callback_sleepAvailable)
next
  case (Fire t)
  with assms(2) show ?thesis by (auto simp add: fire_def note_call_def split: if_splits)
qed (use assms in \<open>auto simp add: setShellTimeout_def setShellInterval_def
    dest: clear_sleepAvailable\<close>)

lemma no_native_slot_step:
  assumes "no_native_slot s" and "\<And>p. e = Completion p \<Longrightarrow> sleepAvailable s"
    and "step note_call e s = Some (Inr s')"
  shows "no_native_slot s'"
proof (cases e)
  case (Completion p)
  have "no_native_slot (set_status p Finished s)"
    using assms(1) by (simp add: no_native_slot_def)
  moreover have "sleepAvailable (set_status p Finished s)"
    using assms(2) Completion by simp
  ultimately show ?thesis
    using assms(1,3) Completion
    by (auto simp add: completion_def split: if_splits proc_status.splits
        dest: no_native_slot_exec_callback)
next
  case (CommandFails p)
  have "no_native_slot (set_status p Finished s)"
    using assms(1) by (simp add: no_native_slot_def)
  then show ?thesis
    using assms(1,3) CommandFails
    by (auto simp add: failure_def split: if_splits dest: no_native_slot_exec_callback)
next
  case (Fire t)
  with assms(1,3) show ?thesis
    by (auto simp add: fire_def note_call_def no_native_slot_def split: if_splits)
next
  case (Availability b)
  with assms(1,3) show ?thesis by (auto simp add: no_native_slot_def)
next
  case (HostTakesIds n)
  with assms(1,3) show ?thesis by (auto simp add: no_native_slot_def)
qed (use assms(1,3) in \<open>auto simp add: setShellTimeout_def setShellInterval_def
    no_native_slot_setShellDelay dest: no_native_slot_clear\<close>)

lemma no_native_slot_run:
  "no_native_slot s \<Longrightarrow> sleep_at_completions (sleepAvailable s) es \<Longrightarrow>
     run note_call es s = Some (Inr s') \<Longrightarrow> no_native_slot s'"
proof (induction es arbitrary: s)
  case Nil
  then show ?case by simp
next
  case (Cons e es)
  from Cons.prems(3) obtain s1 where
    1: "step note_call e s = Some (Inr s1)" and 2: "run note_call es s1 = Some (Inr s')"
    by (auto split: option.splits sum.splits)
  have av: "sleepAvailable s" if "e = Completion p" for p
    using Cons.prems(2) that by simp
  have "no_native_slot s1"
    using Cons.prems(1) av 1 by (rule no_native_slot_step)
  moreover have "sleep_at_completions (sleepAvailable s1) es"
  proof (cases "\<exists>b. e = Availability b")
    case True
    with 1 Cons.prems(2) show ?thesis by auto
  next
    case False
    then have "sleepAvailable s1 = sleepAvailable s"
      using 1 by (intro step_sleepAvailable) auto
    with False Cons.prems(2) show ?thesis by (cases e) auto
  qed
  ultimately show ?case using 2 by (rule Cons.IH)
qed

subsection \<open>Indirection chains\<close>

lemma chain_walk:
  assumes "chain_inv s"
  shows "0 \<le> i \<Longrightarrow> i < nextshellDelayId s \<Longrightarrow>
     \<exists>hops w. hops < nat (nextshellDelayId s - i) \<and>
        walk_within (shellDelays s) hops (slot (shellDelays s) (Num i)) = Some w \<and>
        ((\<exists>p. w = Proc p \<and> p < length (procs s)) \<or>
         (\<exists>t k. w = Timer t k \<and> t < length (timers s)))"
proof (induction "nat (nextshellDelayId s - i)" arbitrary: i rule: less_induct)
  case less
  from chain_inv_dom [OF assms, of i] less.prems obtain v where v: "shellDelays s i = Some v"
    by auto
  then have sl: "slot (shellDelays s) (Num i) = v" by (simp add: slot_def)
  from chain_inv_slot [OF assms v] consider
    (proc) p where "v = Proc p" "p < length (procs s)"
    | (num) j where "v = Num j" "i < j" "j < nextshellDelayId s"
    | (timer) t k where "v = Timer t k" "t < length (timers s)"
    unfolding slot_ok_def by blast
  then show ?case
  proof cases
    case proc
    with sl less.prems have "0 < nat (nextshellDelayId s - i) \<and>
        walk_within (shellDelays s) 0 (slot (shellDelays s) (Num i)) = Some (Proc p)" by simp
    with proc show ?thesis by blast
  next
    case timer
    with sl less.prems have "0 < nat (nextshellDelayId s - i) \<and>
        walk_within (shellDelays s) 0 (slot (shellDelays s) (Num i)) = Some (Timer t k)" by simp
    with timer show ?thesis by blast
  next
    case num
    then have "nat (nextshellDelayId s - j) < nat (nextshellDelayId s - i)" by simp
    moreover have "0 \<le> j" using num less.prems by simp
    ultimately obtain hops w where
      h: "hops < nat (nextshellDelayId s - j)"
        "walk_within (shellDelays s) hops (slot (shellDelays s) (Num j)) = Some w"
        "(\<exists>p. w = Proc p \<and> p < length (procs s)) \<or>
        (\<exists>t k. w = Timer t k \<and> t < length (timers s))"
      using less.hyps [of j] num(3) by blast
    have "walk_within (shellDelays s) (Suc hops) (slot (shellDelays s) (Num i)) = Some w"
      using sl num(1) h(2) by simp
    moreover have "Suc hops < nat (nextshellDelayId s - i)" using h(1) num(2,3) by simp
    ultimately show ?thesis using h(3) by blast
  qed
qed

lemma run_chain_walk:
  assumes "run note_call es (init avail) = Some (Inr s)"
    and "0 \<le> i" and "i < nextshellDelayId s"
  shows "\<exists>hops w.
      hops < nat (nextshellDelayId s - i) \<and>
      walk_within (shellDelays s) hops (slot (shellDelays s) (Num i)) = Some w \<and>
      follow (shellDelays s) (slot (shellDelays s) (Num i)) = Some w \<and>
      ((\<exists>p. w = Proc p \<and> p < length (procs s)) \<or>
        (\<exists>t k. w = Timer t k \<and> t < length (timers s))) \<and>
      (sleep_at_completions avail es \<longrightarrow> (\<exists>p. w = Proc p))"
proof -
  have inv: "chain_inv s" using chain_inv_init assms(1) by (rule chain_inv_run)
  from chain_walk [OF inv assms(2,3)] obtain hops w where
    h: "hops < nat (nextshellDelayId s - i)"
      "walk_within (shellDelays s) hops (slot (shellDelays s) (Num i)) = Some w"
      "(\<exists>p. w = Proc p \<and> p < length (procs s)) \<or>
        (\<exists>t k. w = Timer t k \<and> t < length (timers s))"
    by blast
  have f: "follow (shellDelays s) (slot (shellDelays s) (Num i)) = Some w"
    using h(2) by (rule walk_within_follow)
  have "\<exists>p. w = Proc p" if st: "sleep_at_completions avail es"
  proof -
    have "no_native_slot (init avail)" by (simp add: no_native_slot_def init_def)
    moreover have "sleep_at_completions (sleepAvailable (init avail)) es"
      using st by (simp add: init_def)
    ultimately have "no_native_slot s" using assms(1) by (rule no_native_slot_run)
    moreover have "\<exists>j. shellDelays s j = Some w"
      using h(2) h(3) by (auto dest: walk_within_stored)
    ultimately show ?thesis using h(3) by (auto simp add: no_native_slot_def)
  qed
  with h f show ?thesis by blast
qed



text \<open>
  C3 does not hold of the code.  An interval is scheduled with the sleep utility, the
  utility is not there when the first process completes: the handler reschedules through
  \<^verbatim>\<open>setInterval\<close> and stores the native timer in slot 0.  The walk from the live slot 0
  then ends at a value that is neither an integer nor a process wrapper.
\<close>

theorem chain_ends_in_native_timer:
  "run note_call [CallSetInterval 7 1000, Availability False, Completion 0] (init True) =
     Some (Inr \<lparr>shellDelays = [0 \<mapsto> Timer 0 1], nextshellDelayId = 1, sleepAvailable = False,
       procs = [\<lparr>p_command = Sleep_ms 1000,
                 p_closure = \<lparr>c_callback = 7, c_ms = 1000, c_recur = True, c_delayId = 0\<rparr>,
                 p_status = Finished\<rparr>],
       timers = [\<lparr>t_callback = 7, t_ms = 1000, t_repeat = True, t_active = True\<rparr>],
       nextAsyncId = 2, calls = [7]\<rparr>) \<and>
   follow [0 \<mapsto> Timer 0 1] (slot [0 \<mapsto> Timer 0 1] (Num 0)) = Some (Timer 0 1)"
  by (simp add: setShellInterval_def setShellDelay_def isSleepAvailable_def init_def exec_def
      Let_def completion_def set_status_def exec_callback_def setInterval_def note_call_def
      slot_def)

subsection \<open>What scheduling and completion write\<close>

text \<open>
  C10.  In a reachable state with the sleep utility, a scheduling call takes the slot at
  the counter, which has no entry, stores the new process wrapper there and leaves every
  other slot as it was.  The normal completion of a delay that does not recur calls the
  callback in the state it found: no slot is written.  The normal completion of a
  recurring delay writes the new slot and the delay's own slot.
\<close>

theorem scheduling_writes_only_fresh_slot:
  assumes "run note_call es (init avail) = Some (Inr s)"
  shows "(isSleepAvailable s \<longrightarrow>
            shellDelays s (nextshellDelayId s) = None \<and>
            fst (setShellDelay cb ms recur s) = Num (nextshellDelayId s) \<and>
            shellDelays (snd (setShellDelay cb ms recur s)) =
              (shellDelays s)(nextshellDelayId s \<mapsto> Proc (length (procs s))) \<and>
            (\<forall>i. shellDelays s i \<noteq> None \<longrightarrow>
               shellDelays (snd (setShellDelay cb ms recur s)) i = shellDelays s i)) \<and>
         (\<not> c_recur c \<longrightarrow> exec_callback invoke c None s = invoke (c_callback c) s) \<and>
         (p < length (procs s) \<and> p_status (procs s ! p) = Running \<and>
            \<not> c_recur (p_closure (procs s ! p)) \<longrightarrow>
            completion note_call p s =
              Some (Inr ((set_status p Finished s)
                \<lparr>calls := calls s @ [c_callback (p_closure (procs s ! p))]\<rparr>)) \<and>
            shellDelays ((set_status p Finished s)
                \<lparr>calls := calls s @ [c_callback (p_closure (procs s ! p))]\<rparr>) = shellDelays s) \<and>
         (c_recur c \<and> isSleepAvailable s \<longrightarrow>
            (\<exists>t. exec_callback invoke c None s = invoke (c_callback c) t \<and>
               shellDelays t =
                 (shellDelays s)(nextshellDelayId s \<mapsto> Proc (length (procs s)),
                                 c_delayId c \<mapsto> Num (nextshellDelayId s))))"
proof -
  have inv: "chain_inv s" using chain_inv_init assms by (rule chain_inv_run)
  have fresh: "shellDelays s (nextshellDelayId s) = None"
    using chain_inv_dom [OF inv, of "nextshellDelayId s"] by simp
  show ?thesis
    using fresh
    by (auto simp add: setShellDelay_available exec_callback_def completion_def note_call_def)
qed

theorem scheduling_writes_only_fresh_slot_witness:
  "run note_call [CallSetTimeout 7 1500] (init True) =
     Some (Inr (snd (setShellTimeout 7 1500 (init True)))) \<and>
   isSleepAvailable (snd (setShellTimeout 7 1500 (init True))) \<and>
   shellDelays (snd (setShellTimeout 7 1500 (init True))) 1 = None \<and>
   fst (setShellDelay 8 250 True (snd (setShellTimeout 7 1500 (init True)))) = Num 1 \<and>
   shellDelays (snd (setShellDelay 8 250 True (snd (setShellTimeout 7 1500 (init True))))) 0 =
     Some (Proc 0) \<and>
   shellDelays (snd (setShellDelay 8 250 True (snd (setShellTimeout 7 1500 (init True))))) 1 =
     Some (Proc 1) \<and>
   completion note_call 0 (snd (setShellTimeout 7 1500 (init True))) =
     Some (Inr ((set_status 0 Finished (snd (setShellTimeout 7 1500 (init True))))\<lparr>calls := [7]\<rparr>))"
proof -
  let ?s = "snd (setShellTimeout 7 1500 (init True))"
  have r: "run note_call [CallSetTimeout 7 1500] (init True) = Some (Inr ?s)" by simp
  have a: "isSleepAvailable ?s"
    by (simp add: setShellTimeout_def setShellDelay_def init_def exec_def isSleepAvailable_def Let_def)
  have v: "nextshellDelayId ?s = 1" "procs ?s = [\<lparr>p_command = Sleep_ms 1500,
        p_closure = \<lparr>c_callback = 7, c_ms = 1500, c_recur = False, c_delayId = 0\<rparr>,
        p_status = Running\<rparr>]" "shellDelays ?s 0 = Some (Proc 0)" "calls ?s = []"
    by (simp_all add: setShellTimeout_def setShellDelay_def init_def exec_def isSleepAvailable_def
        Let_def)
  note th = scheduling_writes_only_fresh_slot
    [OF r, where cb = 8 and ms = 250 and recur = True and p = 0
      and c = "\<lparr>c_callback = 7, c_ms = 1500, c_recur = False, c_delayId = 0\<rparr>"
      and invoke = note_call]
  show ?thesis using r a v th by simp
qed



subsection \<open>Cancelling with the process table\<close>

text \<open>
  The loop does not end when the completion of the process that the walk reaches has
  already been delivered.
\<close>

lemma clearShellDelay_spins:
  assumes "follow (shellDelays s) (slot (shellDelays s) h) = Some (Proc p)"
    and "\<not> (p < length (procs s) \<and> p_status (procs s ! p) \<noteq> Finished)"
  shows "clearShellDelay kill_process h s = None"
proof (cases "clearShellDelay kill_process h s")
  case (Some r)
  from clearShellDelay_kill_process_result [OF Some assms(1)] assms(2) show ?thesis by blast
qed simp

text \<open>
  If the sleep utility was there whenever a completion was delivered, cancelling a handle
  that was dispensed does not throw.
\<close>

lemma cancel_does_not_throw:
  assumes "run note_call es (init avail) = Some (Inr s)"
    and "sleep_at_completions avail es"
    and "0 \<le> i" and "i < nextshellDelayId s"
  shows "clearShellTimeout (Num i) s \<noteq> Some (Inl e) \<and>
     clearShellInterval (Num i) s \<noteq> Some (Inl e)"
proof -
  from run_chain_walk [OF assms(1,3,4)] assms(2) obtain p where
    f: "follow (shellDelays s) (slot (shellDelays s) (Num i)) = Some (Proc p)" by auto
  have "clearShellDelay kill_process (Num i) s \<noteq> Some (Inl e)"
    using clearShellDelay_kill_process_result [OF _ f] by auto
  then show ?thesis
    by (simp add: clearShellTimeout_def clearShellInterval_def)
qed

text \<open>
  C6 does not hold of the code.  The handle 0 of an interval is valid and was never
  cancelled; the sleep utility disappears before the first tick and is back afterwards.
  The tick stores a native timer in slot 0, and \<^verbatim>\<open>clearShellInterval(0)\<close> calls
  \<^verbatim>\<open>kill\<close> on it: a TypeError reaches the caller.
\<close>

theorem cancel_throws_after_fallback_reschedule:
  "run note_call
     [CallSetInterval 7 1000, Availability False, Completion 0, Availability True,
      CallClearInterval (Num 0)] (init True) = Some (Inl TypeError)"
  by (simp add: setShellInterval_def setShellDelay_def isSleepAvailable_def init_def exec_def
      Let_def completion_def set_status_def exec_callback_def setInterval_def note_call_def
      slot_def clearShellInterval_def clearShellDelay.simps)

end
